theory Spec2Isabelle
  imports Main "HOL-Library.Sublist"
begin

section \<open>Python values\<close>

text \<open>
  The values \<^verbatim>\<open>json.loads\<close> builds: \<^verbatim>\<open>None\<close>, a bool, a number, a str, a list, a dict.
  A number is carried as the literal that denotes it (the program never computes with
  one or compares one). A dict is carried as its members in the order of the text;
  \<^verbatim>\<open>json.loads\<close> lets a later member replace the value of an earlier one with the same
  name, which \<open>dict_get\<close> and \<open>dict_keys\<close> follow. A character is a code point below
  256.
\<close>

datatype json =
    JNull
  | JBool bool
  | JNum string
  | JStr string
  | JArr "json list"
  | JObj "(string \<times> json) list"

text \<open>The exceptions that occur: \<^verbatim>\<open>Exception(msg)\<close> is the one \<^verbatim>\<open>OpenAIClient.query\<close> raises.\<close>

datatype py_error =
    Exception string
  | JSONDecodeError
  | AttributeError
  | TypeError
  | IndexError
  | RecursionError

definition dict_get :: "(string \<times> json) list \<Rightarrow> string \<Rightarrow> json \<Rightarrow> json" where
  "dict_get d k dflt = (case map_of (rev d) k of Some v \<Rightarrow> v | None \<Rightarrow> dflt)"

definition dict_keys :: "(string \<times> json) list \<Rightarrow> string list" where
  "dict_keys d = rev (remdups (rev (map fst d)))"

text \<open>\<^verbatim>\<open>x.get(k, dflt)\<close>: only a dict has the method.\<close>

fun py_get :: "json \<Rightarrow> string \<Rightarrow> json \<Rightarrow> py_error + json" where
  "py_get (JObj d) k dflt = Inr (dict_get d k dflt)"
| "py_get _ k dflt = Inl AttributeError"

text \<open>
  \<^verbatim>\<open>for x in v\<close> and \<^verbatim>\<open>zip(_, v)\<close>: a list gives its elements, a dict its keys, a str its
  characters; \<^verbatim>\<open>None\<close>, a bool and a number are not iterable.
\<close>

fun py_iter :: "json \<Rightarrow> py_error + json list" where
  "py_iter (JArr xs) = Inr xs"
| "py_iter (JObj d) = Inr (map JStr (dict_keys d))"
| "py_iter (JStr s) = Inr (map (\<lambda>c. JStr [c]) s)"
| "py_iter _ = Inl TypeError"

text \<open>
  \<^verbatim>\<open>json.loads\<close> is the standard library's, so it is a parameter: a text is decoded to a
  value or raises (\<open>JSONDecodeError\<close> on a text that is not JSON, \<open>RecursionError\<close> on one
  nested too deep). \<open>loads_from\<close> is the decoder of the examples, given by the texts it
  decodes; it rejects every other text.
\<close>

type_synonym decoder = "string \<Rightarrow> py_error + json"

definition loads_from :: "(string \<times> json) list \<Rightarrow> decoder" where
  "loads_from table text = (case map_of table text of Some v \<Rightarrow> Inr v | None \<Rightarrow> Inl JSONDecodeError)"

section \<open>Strings\<close>

text \<open>\<^verbatim>\<open>str.isspace\<close> on the code points below 256.\<close>

definition py_isspace :: "char \<Rightarrow> bool" where
  "py_isspace c =
     (let n = (of_char c :: nat)
      in (9 \<le> n \<and> n \<le> 13) \<or> (28 \<le> n \<and> n \<le> 32) \<or> n = 133 \<or> n = 160)"

definition strip :: "string \<Rightarrow> string" where
  "strip s = rev (dropWhile py_isspace (rev (dropWhile py_isspace s)))"

definition startswith :: "string \<Rightarrow> string \<Rightarrow> bool" where
  "startswith s p = (take (length p) s = p)"

definition endswith :: "string \<Rightarrow> string \<Rightarrow> bool" where
  "endswith s p = (length p \<le> length s \<and> drop (length s - length p) s = p)"

text \<open>\<^verbatim>\<open>s[a:-b]\<close> for \<open>b > 0\<close>: the stop \<open>len(s) - b\<close> is clipped at 0.\<close>

definition slice :: "string \<Rightarrow> nat \<Rightarrow> nat \<Rightarrow> string" where
  "slice s a b = drop a (take (length s - b) s)"

section \<open>script.py: the response sanitizer\<close>

definition clean_json_response :: "string \<Rightarrow> string" where
  "clean_json_response response =
     (if startswith response ''```json'' \<and> endswith response ''```''
      then strip (slice response 7 3)
      else if startswith response ''```'' \<and> endswith response ''```''
      then strip (slice response 3 3)
      else response)"

section \<open>my_openai.py: the client\<close>

text \<open>
  The backend is the sequence of its completions: \<open>backend n\<close> is the message content of
  the \<open>n\<close>-th completion the process asks for, \<open>None\<close> when it has none. The prompts are
  not modelled: whatever they are, the backend answers with some sequence, and building
  one (\<^verbatim>\<open>json.dumps\<close> of titles and descriptions that are JSON values) and logging raise
  nothing short of the interpreter running out of stack or memory, which is not modelled.
  Neither is what the API call itself may raise (authentication, transport): the model
  starts where the completion is there.
\<close>

type_synonym backend = "nat \<Rightarrow> string option"

definition query :: "backend \<Rightarrow> nat \<Rightarrow> py_error + string" where
  "query backend n =
     (case backend n of
        None \<Rightarrow> Inl (Exception ''OpenAI API returned None'')
      | Some response \<Rightarrow> Inr response)"

section \<open>script.py: items and their codec\<close>

text \<open>
  \<open>oid\<close> is the identity of the object (what \<^verbatim>\<open>is\<close> compares): a constructor call takes
  the next unused one. The constructor takes whatever values it is given, so the three
  attributes are Python values; \<open>JNull\<close> is \<^verbatim>\<open>None\<close>.
\<close>

record IdeaItem =
  oid :: nat
  title :: json
  description :: json
  rating :: json

fun parse_loop :: "nat \<Rightarrow> json list \<Rightarrow> py_error + IdeaItem list" where
  "parse_loop n [] = Inr []"
| "parse_loop n (idea_dict # rest) =
     (case py_get idea_dict ''title'' (JStr '''') of
        Inl e \<Rightarrow> Inl e
      | Inr t \<Rightarrow>
          (case py_get idea_dict ''description'' (JStr '''') of
             Inl e \<Rightarrow> Inl e
           | Inr d \<Rightarrow>
               (case parse_loop (Suc n) rest of
                  Inl e \<Rightarrow> Inl e
                | Inr idea_items \<Rightarrow>
                    Inr (\<lparr>oid = n, title = t, description = d, rating = JNull\<rparr> # idea_items))))"

definition parse_ideas :: "nat \<Rightarrow> json \<Rightarrow> py_error + IdeaItem list" where
  "parse_ideas n json_ideas =
     (case py_iter json_ideas of Inl e \<Rightarrow> Inl e | Inr xs \<Rightarrow> parse_loop n xs)"

definition ideas_to_json :: "IdeaItem list \<Rightarrow> json" where
  "ideas_to_json ideas =
     JArr (map (\<lambda>idea. JObj [(''title'', title idea), (''description'', description idea)]) ideas)"

section \<open>script.py: the evaluator\<close>

text \<open>
  The loop over \<^verbatim>\<open>zip(ideas, ratings_data)\<close>: it ends with the shorter of the two, and the
  ideas past the end keep their rating. The result is the list of booleans and the ideas
  as the loop leaves them.
\<close>

fun rate_loop :: "IdeaItem list \<Rightarrow> json list \<Rightarrow> py_error + bool list \<times> IdeaItem list" where
  "rate_loop [] ratings = Inr ([], [])"
| "rate_loop (idea_item # ideas) [] = Inr ([], idea_item # ideas)"
| "rate_loop (idea_item # ideas) (rating_obj # ratings) =
     (case py_get rating_obj ''rating'' (JStr ''Needs improvement'') of
        Inl e \<Rightarrow> Inl e
      | Inr r \<Rightarrow>
          (case py_get rating_obj ''reason'' (JStr '''') of
             Inl e \<Rightarrow> Inl e
           | Inr reason \<Rightarrow>
               (case rate_loop ideas ratings of
                  Inl e \<Rightarrow> Inl e
                | Inr (bool_results, ideas') \<Rightarrow>
                    Inr ((r = JStr ''Good enough'') # bool_results,
                         idea_item\<lparr>rating := r\<rparr> # ideas'))))"

definition evaluate_ideas ::
  "decoder \<Rightarrow> backend \<Rightarrow> nat \<Rightarrow> IdeaItem list \<Rightarrow> py_error + bool list \<times> IdeaItem list" where
  "evaluate_ideas loads backend n ideas =
     (case query backend n of
        Inl e \<Rightarrow> Inl e
      | Inr evaluation_response \<Rightarrow>
          (case loads (clean_json_response evaluation_response) of
             Inl JSONDecodeError \<Rightarrow>
               Inr (replicate (length ideas) False,
                    map (\<lambda>idea. idea\<lparr>rating := JStr ''Needs improvement''\<rparr>) ideas)
           | Inl e \<Rightarrow> Inl e
           | Inr ratings_data \<Rightarrow>
               (case py_iter ratings_data of
                  Inl e \<Rightarrow> Inl e
                | Inr ratings \<Rightarrow> rate_loop ideas ratings)))"

section \<open>script.py: the refinement loop\<close>

text \<open>
  The local variables of \<^verbatim>\<open>generate_ideas\<close>, with the number of completions asked for so
  far and the next unused object identity.
\<close>

record loop_state =
  attempts :: nat
  good_enough_ideas :: "IdeaItem list"
  needs_improvement_ideas :: "IdeaItem list"
  calls :: nat
  next_oid :: nat

text \<open>
  How a step of the loop body ends: control goes on to the next step, a \<^verbatim>\<open>continue\<close>
  goes to the loop head, or an exception leaves the function.
\<close>

datatype step = Proceed loop_state | Skip loop_state | Fail py_error

text \<open>How the loop body ends.\<close>

datatype flow = Continue loop_state | Return "IdeaItem list" | Raise py_error

definition max_attempts :: nat where
  "max_attempts = 5"

text \<open>The body of a \<^verbatim>\<open>try\<close> that decodes a reply to items.\<close>

definition decode_ideas :: "decoder \<Rightarrow> nat \<Rightarrow> string \<Rightarrow> py_error + IdeaItem list" where
  "decode_ideas loads n response =
     (case loads (clean_json_response response) of
        Inl e \<Rightarrow> Inl e
      | Inr json_list \<Rightarrow> parse_ideas n json_list)"

text \<open>1) Generate initial ideas if no ideas exist.\<close>

definition generation_step :: "decoder \<Rightarrow> backend \<Rightarrow> loop_state \<Rightarrow> step" where
  "generation_step loads backend st =
     (if good_enough_ideas st = [] \<and> needs_improvement_ideas st = [] then
        (case query backend (calls st) of
           Inl e \<Rightarrow> Fail e
         | Inr raw_generation_response \<Rightarrow>
             (case decode_ideas loads (next_oid st) raw_generation_response of
                Inl JSONDecodeError \<Rightarrow> Skip (st\<lparr>calls := calls st + 1\<rparr>)
              | Inl e \<Rightarrow> Fail e
              | Inr all_ideas \<Rightarrow>
                  Proceed (st\<lparr>needs_improvement_ideas := needs_improvement_ideas st @ all_ideas,
                              calls := calls st + 1,
                              next_oid := next_oid st + length all_ideas\<rparr>)))
      else Proceed st)"

text \<open>
  The loop over \<^verbatim>\<open>enumerate(evaluation_results)\<close>: the ideas to append to the good ones,
  and the evaluated list as the loop leaves it.
\<close>

fun separate :: "bool list \<Rightarrow> IdeaItem list \<Rightarrow> py_error + IdeaItem list \<times> IdeaItem list" where
  "separate [] ideas = Inr ([], ideas)"
| "separate (is_good # results) [] = Inl IndexError"
| "separate (is_good # results) (idea # ideas) =
     (case separate results ideas of
        Inl e \<Rightarrow> Inl e
      | Inr (moved, ideas') \<Rightarrow>
          (if is_good then Inr (idea # moved, idea # ideas')
           else Inr (moved, idea\<lparr>rating := JStr ''Needs improvement''\<rparr> # ideas')))"

text \<open>2) Evaluate the ideas in the list of those that need improvement.\<close>

definition evaluation_step :: "decoder \<Rightarrow> backend \<Rightarrow> loop_state \<Rightarrow> step" where
  "evaluation_step loads backend st =
     (if needs_improvement_ideas st \<noteq> [] then
        (case evaluate_ideas loads backend (calls st) (needs_improvement_ideas st) of
           Inl e \<Rightarrow> Fail e
         | Inr (evaluation_results, ideas) \<Rightarrow>
             (case separate evaluation_results ideas of
                Inl e \<Rightarrow> Fail e
              | Inr (moved, ideas') \<Rightarrow>
                  Proceed (st\<lparr>good_enough_ideas := good_enough_ideas st @ moved,
                              needs_improvement_ideas :=
                                filter (\<lambda>idea. rating idea = JStr ''Needs improvement'') ideas',
                              calls := calls st + 1\<rparr>)))
      else Proceed st)"

text \<open>3) Improve the weak ideas if any remain.\<close>

definition improvement_step :: "decoder \<Rightarrow> backend \<Rightarrow> loop_state \<Rightarrow> step" where
  "improvement_step loads backend st =
     (if needs_improvement_ideas st \<noteq> [] then
        (case query backend (calls st) of
           Inl e \<Rightarrow> Fail e
         | Inr improve_response \<Rightarrow>
             (case decode_ideas loads (next_oid st) improve_response of
                Inl JSONDecodeError \<Rightarrow> Skip (st\<lparr>calls := calls st + 1\<rparr>)
              | Inl e \<Rightarrow> Fail e
              | Inr improved_ideas \<Rightarrow>
                  Proceed (st\<lparr>needs_improvement_ideas := improved_ideas,
                              calls := calls st + 1,
                              next_oid := next_oid st + length improved_ideas\<rparr>)))
      else Proceed st)"

text \<open>The loop body; 4) is the check whether all ideas are now good enough.\<close>

definition iteration :: "decoder \<Rightarrow> backend \<Rightarrow> loop_state \<Rightarrow> flow" where
  "iteration loads backend st =
     (case generation_step loads backend (st\<lparr>attempts := attempts st + 1\<rparr>) of
        Fail e \<Rightarrow> Raise e
      | Skip s \<Rightarrow> Continue s
      | Proceed s1 \<Rightarrow>
          (case evaluation_step loads backend s1 of
             Fail e \<Rightarrow> Raise e
           | Skip s \<Rightarrow> Continue s
           | Proceed s2 \<Rightarrow>
               (case improvement_step loads backend s2 of
                  Fail e \<Rightarrow> Raise e
                | Skip s \<Rightarrow> Continue s
                | Proceed s3 \<Rightarrow>
                    (if needs_improvement_ideas s3 = [] then Return (good_enough_ideas s3)
                     else Continue s3))))"

function generate_loop :: "decoder \<Rightarrow> backend \<Rightarrow> loop_state \<Rightarrow> py_error + IdeaItem list" where
  "generate_loop loads backend st =
     (if attempts st < max_attempts then
        (case iteration loads backend st of
           Raise e \<Rightarrow> Inl e
         | Return ideas \<Rightarrow> Inr ideas
         | Continue st' \<Rightarrow> generate_loop loads backend st')
      else Inr (good_enough_ideas st @ needs_improvement_ideas st))"
  by pat_completeness auto
termination
proof (relation "measure (\<lambda>(loads, backend, st). max_attempts - attempts st)", goal_cases)
  case 1
  show ?case by simp
next
  case (2 loads backend st st')
  have generation: "attempts s' = attempts s"
    if "generation_step loads backend s = Proceed s' \<or> generation_step loads backend s = Skip s'"
    for s s'
    using that
    by (auto simp: generation_step_def split: if_splits sum.splits py_error.splits)
  have evaluation: "attempts s' = attempts s"
    if "evaluation_step loads backend s = Proceed s' \<or> evaluation_step loads backend s = Skip s'"
    for s s'
    using that
    by (auto simp: evaluation_step_def split: if_splits sum.splits prod.splits)
  have improvement: "attempts s' = attempts s"
    if "improvement_step loads backend s = Proceed s' \<or> improvement_step loads backend s = Skip s'"
    for s s'
    using that
    by (auto simp: improvement_step_def split: if_splits sum.splits py_error.splits)
  from 2(2) have "attempts st' = attempts st + 1"
    unfolding iteration_def
    by (auto split: step.splits if_splits
        dest!: generation [OF disjI1] generation [OF disjI2] evaluation [OF disjI1]
          evaluation [OF disjI2] improvement [OF disjI1] improvement [OF disjI2])
  with 2(1) show ?case by simp
qed

text \<open>
  The states in which the loop body is entered, in order: one for each iteration that
  \<open>generate_loop\<close> runs.
\<close>

function loop_heads :: "decoder \<Rightarrow> backend \<Rightarrow> loop_state \<Rightarrow> loop_state list" where
  "loop_heads loads backend st =
     (if attempts st < max_attempts then
        st # (case iteration loads backend st of
                Raise e \<Rightarrow> []
              | Return ideas \<Rightarrow> []
              | Continue st' \<Rightarrow> loop_heads loads backend st')
      else [])"
  by pat_completeness auto
termination
proof (relation "measure (\<lambda>(loads, backend, st). max_attempts - attempts st)", goal_cases)
  case 1
  show ?case by simp
next
  case (2 loads backend st st')
  have generation: "attempts s' = attempts s"
    if "generation_step loads backend s = Proceed s' \<or> generation_step loads backend s = Skip s'"
    for s s'
    using that
    by (auto simp: generation_step_def split: if_splits sum.splits py_error.splits)
  have evaluation: "attempts s' = attempts s"
    if "evaluation_step loads backend s = Proceed s' \<or> evaluation_step loads backend s = Skip s'"
    for s s'
    using that
    by (auto simp: evaluation_step_def split: if_splits sum.splits prod.splits)
  have improvement: "attempts s' = attempts s"
    if "improvement_step loads backend s = Proceed s' \<or> improvement_step loads backend s = Skip s'"
    for s s'
    using that
    by (auto simp: improvement_step_def split: if_splits sum.splits py_error.splits)
  from 2(2) have "attempts st' = attempts st + 1"
    unfolding iteration_def
    by (auto split: step.splits if_splits
        dest!: generation [OF disjI1] generation [OF disjI2] evaluation [OF disjI1]
          evaluation [OF disjI2] improvement [OF disjI1] improvement [OF disjI2])
  with 2(1) show ?case by simp
qed

definition initial_state :: loop_state where
  "initial_state =
     \<lparr>attempts = 0, good_enough_ideas = [], needs_improvement_ideas = [], calls = 0, next_oid = 0\<rparr>"

definition generate_ideas :: "decoder \<Rightarrow> backend \<Rightarrow> py_error + IdeaItem list" where
  "generate_ideas loads backend = generate_loop loads backend initial_state"

section \<open>Backends and invariants for the statements\<close>

text \<open>The backend that answers with the listed contents, in order, and has none after them.\<close>

definition replies :: "string list \<Rightarrow> backend" where
  "replies rs n = (if n < length rs then Some (rs ! n) else None)"



text \<open>
  What the evaluator's two results have to do with each other: there are no more
  booleans than ideas, and an idea whose boolean is true is rated \<^verbatim>\<open>"Good enough"\<close>.
\<close>

fun rated :: "bool list \<Rightarrow> IdeaItem list \<Rightarrow> bool" where
  "rated [] ideas = True"
| "rated (is_good # results) [] = False"
| "rated (is_good # results) (idea # ideas) =
     ((is_good \<longrightarrow> rating idea = JStr ''Good enough'') \<and> rated results ideas)"

text \<open>
  The working set holds no object twice, in one list or across the two, and every object
  in it was made before the next one will be.
\<close>

definition wf_state :: "loop_state \<Rightarrow> bool" where
  "wf_state st =
     (distinct (map oid (good_enough_ideas st @ needs_improvement_ideas st))
      \<and> list_all (\<lambda>idea. oid idea < next_oid st)
           (good_enough_ideas st @ needs_improvement_ideas st))"

declare generate_loop.simps [simp del] loop_heads.simps [simp del]

section \<open>Example runs\<close>

text \<open>
  A backend that generates eleven ideas, answers the evaluation with a text that is not
  JSON, and answers the improvement with the empty array; with the states of the first
  iteration after the generation and after the evaluation.
\<close>

definition eleven_titles :: "string list" where
  "eleven_titles =
     [''t1'', ''t2'', ''t3'', ''t4'', ''t5'', ''t6'', ''t7'', ''t8'', ''t9'', ''t10'', ''t11'']"

definition eleven_text :: string where
  \<open>eleven_text = ''[{"title":"t1"},{"title":"t2"},{"title":"t3"},{"title":"t4"},{"title":"t5"},{"title":"t6"},{"title":"t7"},{"title":"t8"},{"title":"t9"},{"title":"t10"},{"title":"t11"}]''\<close>

definition dropping_loads :: decoder where
  "dropping_loads =
     loads_from [(eleven_text, JArr (map (\<lambda>t. JObj [(''title'', JStr t)]) eleven_titles)),
                 (''[]'', JArr [])]"

definition dropping_backend :: backend where
  "dropping_backend = replies [eleven_text, ''no'', ''[]'']"

definition eleven_generated :: loop_state where
  "eleven_generated =
     \<lparr>attempts = 1, good_enough_ideas = [],
      needs_improvement_ideas =
        map (\<lambda>(k, t). \<lparr>oid = k, title = JStr t, description = JStr '''', rating = JNull\<rparr>)
          (enumerate 0 eleven_titles),
      calls = 1, next_oid = 11\<rparr>"

definition eleven_pending :: loop_state where
  "eleven_pending =
     \<lparr>attempts = 1, good_enough_ideas = [],
      needs_improvement_ideas =
        map (\<lambda>(k, t). \<lparr>oid = k, title = JStr t, description = JStr '''',
                         rating = JStr ''Needs improvement''\<rparr>)
          (enumerate 0 eleven_titles),
      calls = 2, next_oid = 11\<rparr>"

text \<open>
  Two backends that generate the ideas A and B and rate A good and B not: the first
  (whose first reply is in a \<^verbatim>\<open>```json\<close> fence) improves B to a new idea C, the second
  answers the improvement with A once more. Both rate the improved idea good.
\<close>

definition two_ideas_loads :: decoder where
  \<open>two_ideas_loads =
     loads_from
       [(''[{"title": "A"}, {"title": "B"}]'',
           JArr [JObj [(''title'', JStr ''A'')], JObj [(''title'', JStr ''B'')]]),
        (''[{"rating": "Good enough"}, {"rating": "Needs improvement"}]'',
           JArr [JObj [(''rating'', JStr ''Good enough'')],
                 JObj [(''rating'', JStr ''Needs improvement'')]]),
        (''[{"title": "C"}]'', JArr [JObj [(''title'', JStr ''C'')]]),
        (''[{"title": "A"}]'', JArr [JObj [(''title'', JStr ''A'')]]),
        (''[{"rating": "Good enough"}]'', JArr [JObj [(''rating'', JStr ''Good enough'')]])]\<close>

definition improving_backend :: backend where
  \<open>improving_backend =
     replies [''```json\<newline>[{"title": "A"}, {"title": "B"}]\<newline>```'',
              ''[{"rating": "Good enough"}, {"rating": "Needs improvement"}]'',
              ''[{"title": "C"}]'',
              ''[{"rating": "Good enough"}]'']\<close>

definition echoing_backend :: backend where
  \<open>echoing_backend =
     replies [''[{"title": "A"}, {"title": "B"}]'',
              ''[{"rating": "Good enough"}, {"rating": "Needs improvement"}]'',
              ''[{"title": "A"}]'',
              ''[{"rating": "Good enough"}]'']\<close>


section \<open>Strings: helper facts\<close>

lemma startswith_prefix: "startswith s p = prefix p s"
  by (auto simp: startswith_def prefix_def) (metis append_take_drop_id)

lemma endswith_suffix: "endswith s p = suffix p s"
  by (auto simp: endswith_def suffix_def) (metis append_take_drop_id)

lemma no_json_tag:
  assumes "\<not> startswith body ''json''"
  shows "\<not> startswith (''```'' @ body @ ''```'') ''```json''"
proof -
  have "\<not> prefix ''json'' (body @ ''```'')"
  proof
    assume "prefix ''json'' (body @ ''```'')"
    then consider "prefix ''json'' body"
      | us where "''json'' = body @ us" "prefix us ''```''"
      by (auto simp: prefix_append)
    then show False
    proof cases
      case 1
      with assms show False by (simp add: startswith_prefix)
    next
      case 2
      from 2(2) have "us \<in> {[], ''`'', ''``'', ''```''}"
        by (auto simp: prefix_Cons)
      with 2(1) assms show False
        by (auto simp: startswith_prefix append_eq_Cons_conv Cons_eq_append_conv)
    qed
  qed
  then show ?thesis
    by (simp add: startswith_prefix)
qed

section \<open>The response sanitizer\<close>

text \<open>
  What the two branches do. A text that is \<^verbatim>\<open>```json\<close>, a body and \<^verbatim>\<open>```\<close> is cleaned to the
  body without the whitespace around it. A text that is \<^verbatim>\<open>```\<close>, a body that does not start
  with \<^verbatim>\<open>json\<close>, and \<^verbatim>\<open>```\<close> is cleaned to that body without the whitespace around it, whatever
  the body starts with. A text of fewer than six characters that starts and ends with
  \<^verbatim>\<open>```\<close> is cleaned to the empty text. A text that does not both start and end with \<^verbatim>\<open>```\<close>
  is returned as it is.
\<close>

lemma clean_json_response_cases:
  "clean_json_response (''```json'' @ body @ ''```'') = strip body
   \<and> (\<not> startswith body ''json'' \<longrightarrow>
        clean_json_response (''```'' @ body @ ''```'') = strip body)
   \<and> (startswith s ''```'' \<and> endswith s ''```'' \<and> length s < 6 \<longrightarrow>
        clean_json_response s = [])
   \<and> (\<not> (startswith s ''```'' \<and> endswith s ''```'') \<longrightarrow> clean_json_response s = s)"
proof (intro conjI impI)
  have "startswith (''```json'' @ body @ ''```'') ''```json''"
    by (simp add: startswith_def)
  moreover have "endswith (''```json'' @ body @ ''```'') ''```''"
    by (simp add: endswith_def)
  moreover have "slice (''```json'' @ body @ ''```'') 7 3 = body"
    by (simp add: slice_def)
  ultimately show "clean_json_response (''```json'' @ body @ ''```'') = strip body"
    by (simp add: clean_json_response_def)
next
  assume no_tag: "\<not> startswith body ''json''"
  have "\<not> startswith (''```'' @ body @ ''```'') ''```json''"
    using no_tag by (rule no_json_tag)
  moreover have "startswith (''```'' @ body @ ''```'') ''```''"
    by (simp add: startswith_def)
  moreover have "endswith (''```'' @ body @ ''```'') ''```''"
    by (simp add: endswith_def)
  moreover have "slice (''```'' @ body @ ''```'') 3 3 = body"
    by (simp add: slice_def)
  ultimately show "clean_json_response (''```'' @ body @ ''```'') = strip body"
    by (simp add: clean_json_response_def)
next
  assume short: "startswith s ''```'' \<and> endswith s ''```'' \<and> length s < 6"
  then have "\<not> startswith s ''```json''"
    by (auto simp: startswith_def)
  moreover from short have "length s - 3 \<le> 3"
    by arith
  then have "slice s 3 3 = []"
    by (simp add: slice_def)
  ultimately show "clean_json_response s = []"
    using short by (simp add: clean_json_response_def strip_def)
next
  assume "\<not> (startswith s ''```'' \<and> endswith s ''```'')"
  moreover have "startswith s ''```''" if "startswith s ''```json''"
    using that by (auto simp: startswith_prefix prefix_def)
  ultimately show "clean_json_response s = s"
    by (auto simp: clean_json_response_def)
qed

text \<open>
  Claim C4 fails on the code for a language tag other than \<^verbatim>\<open>json\<close>. The docstring says that
  the function removes the enclosing backticks and language hints and returns a text ready
  for JSON parsing, and the first branch does so for the tag \<^verbatim>\<open>json\<close>: a fenced \<^verbatim>\<open>[]\<close> comes
  out as \<^verbatim>\<open>[]\<close>. With the tag \<^verbatim>\<open>python\<close> only the second branch applies, which cuts the
  backticks and leaves the tag: the same fenced \<^verbatim>\<open>[]\<close> comes out as \<^verbatim>\<open>python\<close>, a line break
  and \<^verbatim>\<open>[]\<close>, which is not JSON.
\<close>

theorem clean_json_response_python_tag:
  "clean_json_response ''```json\<newline>[]\<newline>```'' = ''[]''
   \<and> clean_json_response ''```python\<newline>[]\<newline>```'' = ''python\<newline>[]''"
  by (simp add: clean_json_response_def startswith_def endswith_def slice_def strip_def
      py_isspace_def)

section \<open>The client\<close>

text \<open>
  Claim C5, as the code has it. \<open>query\<close> raises exactly when the completion has no content
  (\<^verbatim>\<open>None\<close>), and what it raises is \<^verbatim>\<open>Exception("OpenAI API returned None")\<close>; it returns
  every content that is there, the empty text too.
\<close>

theorem query_raises_iff_absent:
  "((\<exists>e. query backend n = Inl e) = (backend n = None))
   \<and> (backend n = None \<longrightarrow> query backend n = Inl (Exception ''OpenAI API returned None''))
   \<and> (\<forall>response. backend n = Some response \<longrightarrow> query backend n = Inr response)"
  by (auto simp: query_def split: option.splits)

theorem query_raises_iff_absent_witness:
  "replies [''[]''] 1 = None
   \<and> query (replies [''[]'']) 1 = Inl (Exception ''OpenAI API returned None'')
   \<and> replies [''[]''] 0 = Some ''[]''
   \<and> query (replies [''[]'']) 0 = Inr ''[]''"
  using query_raises_iff_absent [of "replies [''[]'']" 1]
    query_raises_iff_absent [of "replies [''[]'']" 0]
  by (simp add: replies_def)

text \<open>Against C5 as the spec states it: an empty reply is returned, not raised.\<close>

theorem query_empty_reply_counterexample:
  "query (replies [ '''' ]) 0 = Inr '''' "
  by (simp add: query_def replies_def)

section \<open>The item codec\<close>

lemma parse_loop_objects:
  "parse_loop n (map JObj ds) =
     Inr (map (\<lambda>(k, d). \<lparr>oid = k, title = dict_get d ''title'' (JStr ''''),
                          description = dict_get d ''description'' (JStr ''''),
                          rating = JNull\<rparr>) (enumerate n ds))"
  by (induction ds arbitrary: n) simp_all

lemma dict_get_absent:
  assumes "k \<notin> fst ` set d"
  shows "dict_get d k dflt = dflt"
proof -
  from assms have "map_of (rev d) k = None"
    by (simp add: map_of_eq_None_iff)
  then show ?thesis by (simp add: dict_get_def)
qed

text \<open>
  Claim C10. Decoding the encoding of a batch \<open>b\<close> (empty or not) raises nothing and gives
  a batch of the same length with the titles and the descriptions of \<open>b\<close>, in order; every
  rating of the result is \<^verbatim>\<open>None\<close>, whatever it was in \<open>b\<close>. Decoding a list of dicts never
  raises: each item has the dict's \<^verbatim>\<open>title\<close> and \<^verbatim>\<open>description\<close>, and the empty string in
  place of one the dict does not have.
\<close>

theorem parse_ideas_roundtrip:
  "(\<exists>b'. parse_ideas n (ideas_to_json b) = Inr b' \<and> length b' = length b
         \<and> map title b' = map title b \<and> map description b' = map description b
         \<and> map rating b' = replicate (length b) JNull)
   \<and> parse_ideas n (JArr (map JObj ds)) =
       Inr (map (\<lambda>(k, d). \<lparr>oid = k, title = dict_get d ''title'' (JStr ''''),
                            description = dict_get d ''description'' (JStr ''''),
                            rating = JNull\<rparr>) (enumerate n ds))
   \<and> (''title'' \<notin> fst ` set d \<longrightarrow> dict_get d ''title'' (JStr '''') = JStr '''')
   \<and> (''description'' \<notin> fst ` set d \<longrightarrow> dict_get d ''description'' (JStr '''') = JStr '''')"
proof (intro conjI)
  let ?enc = "\<lambda>idea. [(''title'', title idea), (''description'', description idea)]"
  let ?dec = "\<lambda>(k, d). \<lparr>oid = k, title = dict_get d ''title'' (JStr ''''),
                  description = dict_get d ''description'' (JStr ''''), rating = JNull\<rparr>"
  let ?b' = "map ?dec (enumerate n (map ?enc b))"
  have enc: "ideas_to_json b = JArr (map JObj (map ?enc b))"
    by (simp add: ideas_to_json_def comp_def)
  have "parse_ideas n (ideas_to_json b) = parse_loop n (map JObj (map ?enc b))"
    by (simp add: enc parse_ideas_def del: map_map)
  also have "\<dots> = Inr ?b'"
    by (rule parse_loop_objects)
  finally have decoded: "parse_ideas n (ideas_to_json b) = Inr ?b'" .
  have "map title ?b' = map title b" "map description ?b' = map description b"
    "map rating ?b' = replicate (length b) JNull"
    by (induction b arbitrary: n; simp add: dict_get_def)+
  with decoded
  show "\<exists>b'. parse_ideas n (ideas_to_json b) = Inr b' \<and> length b' = length b
         \<and> map title b' = map title b \<and> map description b' = map description b
         \<and> map rating b' = replicate (length b) JNull"
    by simp
next
  show "parse_ideas n (JArr (map JObj ds)) =
       Inr (map (\<lambda>(k, d). \<lparr>oid = k, title = dict_get d ''title'' (JStr ''''),
                            description = dict_get d ''description'' (JStr ''''),
                            rating = JNull\<rparr>) (enumerate n ds))"
    by (simp add: parse_ideas_def parse_loop_objects)
qed (simp_all add: dict_get_absent)

text \<open>
  A rated item with both fields goes through the codec and comes back unrated; a dict
  with a title only gives an item with the empty description.
\<close>

theorem parse_ideas_roundtrip_witness:
  "parse_ideas 7 (ideas_to_json
       [\<lparr>oid = 0, title = JStr ''Mood map'', description = JStr ''A shared diary'',
         rating = JStr ''Good enough''\<rparr>]) =
     Inr [\<lparr>oid = 7, title = JStr ''Mood map'', description = JStr ''A shared diary'',
           rating = JNull\<rparr>]
   \<and> ''description'' \<notin> fst ` set [(''title'', JStr ''Mood map'')]
   \<and> parse_ideas 7 (JArr [JObj [(''title'', JStr ''Mood map'')]]) =
       Inr [\<lparr>oid = 7, title = JStr ''Mood map'', description = JStr '''', rating = JNull\<rparr>]"
  using parse_ideas_roundtrip
    [of 7 "[\<lparr>oid = 0, title = JStr ''Mood map'', description = JStr ''A shared diary'',
              rating = JStr ''Good enough''\<rparr>]"
       "[[(''title'', JStr ''Mood map'')]]" "[(''title'', JStr ''Mood map'')]"]
  by (simp add: ideas_to_json_def parse_ideas_def dict_get_def)

section \<open>The evaluator\<close>

text \<open>
  Claim C6. When the backend has a reply and the reply, cleaned, is not JSON,
  \<open>evaluate_ideas\<close> does not raise: it returns one \<open>False\<close> for each idea of the batch (empty or
  not) and leaves every idea rated \<^verbatim>\<open>"Needs improvement"\<close>.
\<close>

theorem evaluate_ideas_malformed_reply:
  assumes "backend n = Some response"
    and "loads (clean_json_response response) = Inl JSONDecodeError"
  shows "evaluate_ideas loads backend n ideas =
           Inr (replicate (length ideas) False,
                map (\<lambda>idea. idea\<lparr>rating := JStr ''Needs improvement''\<rparr>) ideas)"
  using assms by (simp add: evaluate_ideas_def query_def)

theorem evaluate_ideas_malformed_reply_witness:
  "replies [''I cannot rate these.''] 0 = Some ''I cannot rate these.''
   \<and> loads_from [] (clean_json_response ''I cannot rate these.'') = Inl JSONDecodeError
   \<and> evaluate_ideas (loads_from []) (replies [''I cannot rate these.'']) 0
        [\<lparr>oid = 0, title = JStr ''a'', description = JStr ''b'', rating = JNull\<rparr>,
         \<lparr>oid = 1, title = JStr ''c'', description = JStr ''d'', rating = JStr ''Good enough''\<rparr>] =
       Inr ([False, False],
            [\<lparr>oid = 0, title = JStr ''a'', description = JStr ''b'',
              rating = JStr ''Needs improvement''\<rparr>,
             \<lparr>oid = 1, title = JStr ''c'', description = JStr ''d'',
              rating = JStr ''Needs improvement''\<rparr>])"
proof -
  have reply: "replies [''I cannot rate these.''] 0 = Some ''I cannot rate these.''"
    by (simp add: replies_def)
  have malformed:
    "loads_from [] (clean_json_response ''I cannot rate these.'') = Inl JSONDecodeError"
    by (simp add: loads_from_def)
  from evaluate_ideas_malformed_reply
    [where loads = "loads_from []" and backend = "replies [''I cannot rate these.'']"
       and n = 0 and response = "''I cannot rate these.''", OF reply malformed]
    reply malformed
  show ?thesis
    by (simp add: numeral_2_eq_2)
qed

text \<open>
  Claim C1 fails on the code (the list of booleans is as long as the shorter of the batch
  and the verdicts). Two ideas and a reply with one verdict: one boolean comes back, and
  the second idea keeps the rating it had.
\<close>

theorem evaluate_ideas_short_reply:
  \<open>evaluate_ideas
     (loads_from [(''[{"rating": "Good enough"}]'', JArr [JObj [(''rating'', JStr ''Good enough'')]])])
     (replies [''[{"rating": "Good enough"}]'']) 0
     [\<lparr>oid = 0, title = JStr ''a'', description = JStr ''b'', rating = JNull\<rparr>,
      \<lparr>oid = 1, title = JStr ''c'', description = JStr ''d'', rating = JNull\<rparr>] =
   Inr ([True],
        [\<lparr>oid = 0, title = JStr ''a'', description = JStr ''b'', rating = JStr ''Good enough''\<rparr>,
         \<lparr>oid = 1, title = JStr ''c'', description = JStr ''d'', rating = JNull\<rparr>])\<close>
  by (simp add: evaluate_ideas_def query_def replies_def loads_from_def clean_json_response_def
      startswith_def endswith_def dict_get_def)

section \<open>The loop: attempts\<close>

lemma generation_step_attempts:
  "generation_step loads backend s = Proceed s' \<or> generation_step loads backend s = Skip s'
   \<Longrightarrow> attempts s' = attempts s"
  by (auto simp: generation_step_def split: if_splits sum.splits py_error.splits)

lemma evaluation_step_attempts:
  "evaluation_step loads backend s = Proceed s' \<or> evaluation_step loads backend s = Skip s'
   \<Longrightarrow> attempts s' = attempts s"
  by (auto simp: evaluation_step_def split: if_splits sum.splits prod.splits)

lemma improvement_step_attempts:
  "improvement_step loads backend s = Proceed s' \<or> improvement_step loads backend s = Skip s'
   \<Longrightarrow> attempts s' = attempts s"
  by (auto simp: improvement_step_def split: if_splits sum.splits py_error.splits)

lemma iteration_attempts:
  "iteration loads backend st = Continue st' \<Longrightarrow> attempts st' = attempts st + 1"
  unfolding iteration_def
  by (auto split: step.splits if_splits
      dest!: generation_step_attempts [OF disjI1] generation_step_attempts [OF disjI2]
        evaluation_step_attempts [OF disjI1] evaluation_step_attempts [OF disjI2]
        improvement_step_attempts [OF disjI1] improvement_step_attempts [OF disjI2])

lemma loop_heads_length:
  "length (loop_heads loads backend st) \<le> max_attempts - attempts st"
proof (induction loads backend st rule: loop_heads.induct)
  case (1 loads backend st)
  show ?case
  proof (cases "attempts st < max_attempts")
    case False
    then show ?thesis by (simp add: loop_heads.simps)
  next
    case guard: True
    show ?thesis
    proof (cases "iteration loads backend st")
      case (Continue st')
      with guard "1.IH" [OF guard Continue] iteration_attempts [OF Continue]
      show ?thesis
        by (subst loop_heads.simps) simp
    next
      case (Return ideas)
      with guard show ?thesis by (subst loop_heads.simps) simp
    next
      case (Raise e)
      with guard show ?thesis by (subst loop_heads.simps) simp
    qed
  qed
qed

lemma loop_heads_attempts:
  "k < length (loop_heads loads backend st)
   \<Longrightarrow> attempts (loop_heads loads backend st ! k) = attempts st + k"
proof (induction loads backend st arbitrary: k rule: loop_heads.induct)
  case (1 loads backend st)
  show ?case
  proof (cases "attempts st < max_attempts")
    case False
    with "1.prems" show ?thesis by (simp add: loop_heads.simps)
  next
    case guard: True
    show ?thesis
    proof (cases k)
      case 0
      with guard show ?thesis by (subst loop_heads.simps) simp
    next
      case (Suc j)
      show ?thesis
      proof (cases "iteration loads backend st")
        case (Continue st')
        from "1.prems" guard Continue Suc
        have "j < length (loop_heads loads backend st')"
          by (subst (asm) loop_heads.simps) simp
        from "1.IH" [OF guard Continue this] iteration_attempts [OF Continue] guard Continue Suc
        show ?thesis
          by (subst loop_heads.simps) simp
      next
        case (Return ideas)
        with "1.prems" guard Suc show ?thesis by (subst (asm) loop_heads.simps) simp
      next
        case (Raise e)
        with "1.prems" guard Suc show ?thesis by (subst (asm) loop_heads.simps) simp
      qed
    qed
  qed
qed

text \<open>\<open>loop_heads\<close> is the trace of \<open>generate_loop\<close>: its last iteration decides the result.\<close>

lemma generate_loop_trace:
  "generate_loop loads backend st =
     (case loop_heads loads backend st of
        [] \<Rightarrow> Inr (good_enough_ideas st @ needs_improvement_ideas st)
      | h # hs \<Rightarrow>
          (case iteration loads backend (last (h # hs)) of
             Raise e \<Rightarrow> Inl e
           | Return ideas \<Rightarrow> Inr ideas
           | Continue final \<Rightarrow>
               Inr (good_enough_ideas final @ needs_improvement_ideas final)))"
proof (induction loads backend st rule: loop_heads.induct)
  case (1 loads backend st)
  show ?case
  proof (cases "attempts st < max_attempts")
    case False
    then show ?thesis by (simp add: loop_heads.simps generate_loop.simps)
  next
    case guard: True
    show ?thesis
    proof (cases "iteration loads backend st")
      case (Continue st')
      with "1.IH" [OF guard Continue] guard show ?thesis
        by (subst loop_heads.simps, subst generate_loop.simps) (auto split: list.splits)
    next
      case (Return ideas)
      with guard show ?thesis
        by (subst loop_heads.simps, subst generate_loop.simps) simp
    next
      case (Raise e)
      with guard show ?thesis
        by (subst loop_heads.simps, subst generate_loop.simps) simp
    qed
  qed
qed

text \<open>
  Claim C8. Whatever the decoder and the backend do, \<open>generate_ideas\<close> comes to an end (it is
  a total function) after at most \<open>max_attempts\<close> iterations; the \<open>k\<close>-th iteration starts
  with the counter at \<open>k\<close> (counting from 0), because an iteration that goes back to the loop
  head, by a \<^verbatim>\<open>continue\<close> after a parse failure or by reaching the end of the body, has
  added exactly one; and the result is the one the last iteration of the trace decides.
\<close>

theorem attempts_bounded:
  "length (loop_heads loads backend initial_state) \<le> max_attempts
   \<and> (\<forall>k < length (loop_heads loads backend initial_state).
         attempts (loop_heads loads backend initial_state ! k) = k)
   \<and> (\<forall>st st'. iteration loads backend st = Continue st' \<longrightarrow> attempts st' = attempts st + 1)
   \<and> generate_ideas loads backend =
       (case loop_heads loads backend initial_state of
          [] \<Rightarrow> Inr []
        | h # hs \<Rightarrow>
            (case iteration loads backend (last (h # hs)) of
               Raise e \<Rightarrow> Inl e
             | Return ideas \<Rightarrow> Inr ideas
             | Continue final \<Rightarrow>
                 Inr (good_enough_ideas final @ needs_improvement_ideas final)))"
proof (intro conjI allI impI)
  show "length (loop_heads loads backend initial_state) \<le> max_attempts"
    using loop_heads_length [of loads backend initial_state] by simp
next
  fix k
  assume "k < length (loop_heads loads backend initial_state)"
  then show "attempts (loop_heads loads backend initial_state ! k) = k"
    using loop_heads_attempts [of k loads backend initial_state]
    by (simp add: initial_state_def)
next
  fix st st'
  assume "iteration loads backend st = Continue st'"
  then show "attempts st' = attempts st + 1"
    by (rule iteration_attempts)
next
  show "generate_ideas loads backend =
       (case loop_heads loads backend initial_state of
          [] \<Rightarrow> Inr []
        | h # hs \<Rightarrow>
            (case iteration loads backend (last (h # hs)) of
               Raise e \<Rightarrow> Inl e
             | Return ideas \<Rightarrow> Inr ideas
             | Continue final \<Rightarrow>
                 Inr (good_enough_ideas final @ needs_improvement_ideas final)))"
    unfolding generate_ideas_def
    by (subst generate_loop_trace) (simp add: initial_state_def split: list.splits)
qed

text \<open>
  A run of two iterations: the first reply is not JSON, which costs one attempt and goes
  back to the loop head; then the backend has no content and the second iteration raises.
\<close>

theorem attempts_bounded_witness:
  "loop_heads (loads_from []) (replies [''oops'']) initial_state =
     [initial_state,
      \<lparr>attempts = 1, good_enough_ideas = [], needs_improvement_ideas = [], calls = 1,
       next_oid = 0\<rparr>]
   \<and> iteration (loads_from []) (replies [''oops'']) initial_state =
       Continue \<lparr>attempts = 1, good_enough_ideas = [], needs_improvement_ideas = [], calls = 1,
                 next_oid = 0\<rparr>
   \<and> generate_ideas (loads_from []) (replies [''oops'']) =
       Inl (Exception ''OpenAI API returned None'')"
  using attempts_bounded [of "loads_from []" "replies [''oops'']"]
  by (simp add: loop_heads.simps initial_state_def max_attempts_def iteration_def
      generation_step_def decode_ideas_def query_def replies_def loads_from_def
      clean_json_response_def startswith_def endswith_def)

section \<open>The loop: replies of the wrong shape\<close>

text \<open>
  Claim C2 fails on the code (only \<open>JSONDecodeError\<close> is caught). The generation reply is
  the JSON array of one string: \<^verbatim>\<open>parse_ideas\<close> calls \<^verbatim>\<open>get\<close> on the string and the
  \<open>AttributeError\<close> leaves \<open>generate_ideas\<close>.
\<close>

theorem generate_ideas_array_of_strings:
  \<open>generate_ideas (loads_from [(''["a"]'', JArr [JStr ''a''])]) (replies [''["a"]'']) =
   Inl AttributeError\<close>
  by (simp add: generate_ideas_def initial_state_def generate_loop.simps max_attempts_def
      iteration_def generation_step_def decode_ideas_def parse_ideas_def query_def replies_def
      loads_from_def clean_json_response_def startswith_def endswith_def)

section \<open>The loop: budget exhaustion\<close>






section \<open>The loop: the improvement reply\<close>

lemma parse_loop_length: "parse_loop n xs = Inr items \<Longrightarrow> length items = length xs"
  by (induction xs arbitrary: n items) (auto split: sum.splits)

text \<open>
  Claim C3. At step 3 with a non-empty list of ideas that need improvement, when the reply
  decodes to a JSON array of dicts, the list is replaced by the items of the reply, however
  many the reply has and however many the list had. When the reply is the empty array, the
  iteration returns, and so does the loop: the result is the list of good ideas as the
  evaluation step left it, and none of the ideas that needed improvement.
\<close>

theorem improvement_replaces_pending:
  assumes "needs_improvement_ideas st \<noteq> []"
    and "backend (calls st) = Some response"
    and "loads (clean_json_response response) = Inr (JArr replacements)"
    and "parse_loop (next_oid st) replacements = Inr improved"
  shows "improvement_step loads backend st =
           Proceed (st\<lparr>needs_improvement_ideas := improved, calls := calls st + 1,
                       next_oid := next_oid st + length improved\<rparr>)
     \<and> length improved = length replacements
     \<and> (replacements = [] \<longrightarrow>
          (\<forall>st0 s1. attempts st0 < max_attempts \<longrightarrow>
             generation_step loads backend (st0\<lparr>attempts := attempts st0 + 1\<rparr>) = Proceed s1 \<longrightarrow>
             evaluation_step loads backend s1 = Proceed st \<longrightarrow>
               iteration loads backend st0 = Return (good_enough_ideas st)
             \<and> generate_loop loads backend st0 = Inr (good_enough_ideas st)))"
proof (intro conjI impI allI)
  from assms
  show step: "improvement_step loads backend st =
           Proceed (st\<lparr>needs_improvement_ideas := improved, calls := calls st + 1,
                       next_oid := next_oid st + length improved\<rparr>)"
    by (simp add: improvement_step_def query_def decode_ideas_def parse_ideas_def)
  from assms(4) show "length improved = length replacements"
    by (rule parse_loop_length)
  fix st0 s1 :: loop_state
  assume empty: "replacements = []"
    and guard: "attempts st0 < max_attempts"
    and gen: "generation_step loads backend (st0\<lparr>attempts := attempts st0 + 1\<rparr>) = Proceed s1"
    and eval: "evaluation_step loads backend s1 = Proceed st"
  from assms(4) empty have "improved = []"
    by simp
  with step gen eval
  show body: "iteration loads backend st0 = Return (good_enough_ideas st)"
    by (simp add: iteration_def)
  with guard show "generate_loop loads backend st0 = Inr (good_enough_ideas st)"
    by (subst generate_loop.simps) simp
qed

text \<open>
  Eleven ideas are generated, none is rated good, and the improvement reply is \<^verbatim>\<open>[]\<close>: the
  eleven are dropped and \<open>generate_ideas\<close> returns the empty list in its first iteration.
\<close>

theorem improvement_replaces_pending_witness:
  "length (needs_improvement_ideas eleven_pending) = 11
   \<and> dropping_backend (calls eleven_pending) = Some ''[]''
   \<and> dropping_loads (clean_json_response ''[]'') = Inr (JArr [])
   \<and> generation_step dropping_loads dropping_backend
        (initial_state\<lparr>attempts := attempts initial_state + 1\<rparr>) = Proceed eleven_generated
   \<and> evaluation_step dropping_loads dropping_backend eleven_generated = Proceed eleven_pending
   \<and> improvement_step dropping_loads dropping_backend eleven_pending =
        Proceed (eleven_pending\<lparr>needs_improvement_ideas := [], calls := 3\<rparr>)
   \<and> good_enough_ideas eleven_pending = []
   \<and> generate_ideas dropping_loads dropping_backend = Inr []"
proof -
  have pending: "needs_improvement_ideas eleven_pending \<noteq> []"
    "length (needs_improvement_ideas eleven_pending) = 11"
    "good_enough_ideas eleven_pending = []" "calls eleven_pending = 2"
    "next_oid eleven_pending = 11"
    by (simp_all add: eleven_pending_def eleven_titles_def)
  have reply: "dropping_backend (calls eleven_pending) = Some ''[]''"
    by (simp add: pending dropping_backend_def replies_def)
  have decoded: "dropping_loads (clean_json_response ''[]'') = Inr (JArr [])"
    by code_simp
  have parsed: "parse_loop (next_oid eleven_pending) [] = Inr []"
    by simp
  have gen: "generation_step dropping_loads dropping_backend
        (initial_state\<lparr>attempts := attempts initial_state + 1\<rparr>) = Proceed eleven_generated"
    by code_simp
  have eval: "evaluation_step dropping_loads dropping_backend eleven_generated
                = Proceed eleven_pending"
    by code_simp
  have guard: "attempts initial_state < max_attempts"
    by (simp add: initial_state_def max_attempts_def)
  from improvement_replaces_pending
    [where loads = dropping_loads and backend = dropping_backend and st = eleven_pending
       and response = "''[]''" and replacements = "[]" and improved = "[]",
     OF pending(1) reply decoded parsed]
    guard gen eval
  have "improvement_step dropping_loads dropping_backend eleven_pending =
          Proceed (eleven_pending\<lparr>needs_improvement_ideas := [], calls := 3\<rparr>)"
    and "generate_loop dropping_loads dropping_backend initial_state
           = Inr (good_enough_ideas eleven_pending)"
    by (simp_all add: pending eleven_pending_def)
  with pending reply decoded gen eval show ?thesis
    by (simp add: generate_ideas_def)
qed

section \<open>The loop: the working set\<close>

lemma parse_loop_oids:
  "parse_loop n xs = Inr items
   \<Longrightarrow> distinct (map oid items) \<and> (\<forall>idea \<in> set items. n \<le> oid idea \<and> oid idea < n + length items)"
proof (induction xs arbitrary: n items)
  case Nil
  then show ?case by simp
next
  case (Cons x xs)
  from Cons.prems obtain t d rest where
    parts: "parse_loop (Suc n) xs = Inr rest"
      "items = \<lparr>oid = n, title = t, description = d, rating = JNull\<rparr> # rest"
    by (auto split: sum.splits)
  from Cons.IH [OF parts(1)] parts(2) show ?case
    by fastforce
qed

lemma decode_ideas_oids:
  "decode_ideas loads n response = Inr items
   \<Longrightarrow> distinct (map oid items) \<and> (\<forall>idea \<in> set items. n \<le> oid idea \<and> oid idea < n + length items)"
  by (auto simp: decode_ideas_def parse_ideas_def split: sum.splits dest: parse_loop_oids)

lemma rate_loop_rated:
  "rate_loop ideas ratings = Inr (results, ideas')
   \<Longrightarrow> rated results ideas' \<and> map oid ideas' = map oid ideas"
  by (induction ideas ratings arbitrary: results ideas' rule: rate_loop.induct)
    (auto split: sum.splits prod.splits)

lemma rated_all_false: "rated (replicate (length ideas) False) (map f ideas)"
  by (induction ideas) simp_all

lemma evaluate_ideas_rated:
  assumes "evaluate_ideas loads backend n ideas = Inr (results, ideas')"
  shows "rated results ideas' \<and> map oid ideas' = map oid ideas"
  using assms
  by (auto simp: evaluate_ideas_def rated_all_false comp_def
      split: sum.splits py_error.splits dest: rate_loop_rated)

lemma separate_rated:
  assumes "rated results ideas" and "distinct (map oid ideas)"
  shows "\<exists>moved kept. separate results ideas = Inr (moved, kept)
           \<and> distinct (map oid (moved @ filter (\<lambda>idea. rating idea = JStr ''Needs improvement'') kept))
           \<and> set (map oid (moved @ filter (\<lambda>idea. rating idea = JStr ''Needs improvement'') kept))
               \<subseteq> set (map oid ideas)"
  using assms
proof (induction results ideas rule: separate.induct)
  case (1 ideas)
  then show ?case by (auto simp: distinct_map_filter)
next
  case (2 is_good results)
  then show ?case by simp
next
  case (3 is_good results idea ideas)
  let ?weak = "filter (\<lambda>idea. rating idea = JStr ''Needs improvement'')"
  from 3 obtain moved kept where
    rest: "separate results ideas = Inr (moved, kept)"
    and dist: "distinct (map oid (moved @ ?weak kept))"
    and sub: "set (map oid (moved @ ?weak kept)) \<subseteq> set (map oid ideas)"
    by auto
  from "3.prems" have fresh: "oid idea \<notin> set (map oid ideas)"
    by simp
  with sub have fresh': "oid idea \<notin> set (map oid (moved @ ?weak kept))"
    by blast
  show ?case
  proof (cases is_good)
    case True
    with "3.prems" have "rating idea = JStr ''Good enough''"
      by simp
    with True rest dist sub fresh' show ?thesis
      by (auto simp: image_iff)
  next
    case False
    with rest dist sub fresh' show ?thesis
      by (auto simp: image_iff)
  qed
qed

lemma wf_state_attempts [simp]: "wf_state (st\<lparr>attempts := n\<rparr>) = wf_state st"
  by (simp add: wf_state_def)


lemma wf_state_calls [simp]: "wf_state (st\<lparr>calls := n\<rparr>) = wf_state st"
  by (simp add: wf_state_def)

lemma wf_state_replace:
  assumes "wf_state st"
    and "distinct (map oid items)"
    and "\<forall>idea \<in> set items. next_oid st \<le> oid idea \<and> oid idea < next_oid st + length items"
  shows "wf_state (st\<lparr>needs_improvement_ideas := items, calls := c,
                      next_oid := next_oid st + length items\<rparr>)"
proof -
  from assms(1) have good: "distinct (map oid (good_enough_ideas st))"
    "\<forall>idea \<in> set (good_enough_ideas st). oid idea < next_oid st"
    by (auto simp: wf_state_def list_all_iff)
  with assms(3) have "set (map oid (good_enough_ideas st)) \<inter> set (map oid items) = {}"
    by fastforce
  with good assms(2,3) show ?thesis
    by (fastforce simp: wf_state_def list_all_iff)
qed

lemma generation_step_cases:
  "generation_step loads backend st = Proceed s'
   \<Longrightarrow> s' = st
      \<or> (good_enough_ideas st = [] \<and> needs_improvement_ideas st = []
          \<and> (\<exists>response items. decode_ideas loads (next_oid st) response = Inr items
                \<and> s' = st\<lparr>needs_improvement_ideas := items, calls := calls st + 1,
                            next_oid := next_oid st + length items\<rparr>))"
  "generation_step loads backend st = Skip s' \<Longrightarrow> s' = st\<lparr>calls := calls st + 1\<rparr>"
  by (auto simp: generation_step_def split: if_splits sum.splits py_error.splits)

lemma improvement_step_cases:
  "improvement_step loads backend st = Proceed s'
   \<Longrightarrow> s' = st
      \<or> (\<exists>response items. decode_ideas loads (next_oid st) response = Inr items
            \<and> s' = st\<lparr>needs_improvement_ideas := items, calls := calls st + 1,
                        next_oid := next_oid st + length items\<rparr>)"
  "improvement_step loads backend st = Skip s' \<Longrightarrow> s' = st\<lparr>calls := calls st + 1\<rparr>"
  by (auto simp: improvement_step_def split: if_splits sum.splits py_error.splits)

lemma generation_step_wf:
  assumes "wf_state st"
    and "generation_step loads backend st = Proceed s' \<or> generation_step loads backend st = Skip s'"
  shows "wf_state s' \<and> good_enough_ideas s' = good_enough_ideas st"
  using assms(2)
proof
  assume "generation_step loads backend st = Skip s'"
  from generation_step_cases(2) [OF this] assms(1) show ?thesis by simp
next
  assume "generation_step loads backend st = Proceed s'"
  from generation_step_cases(1) [OF this] show ?thesis
  proof (elim disjE conjE exE)
    assume "s' = st"
    with assms(1) show ?thesis by simp
  next
    fix response items
    assume "decode_ideas loads (next_oid st) response = Inr items"
      and s': "s' = st\<lparr>needs_improvement_ideas := items, calls := calls st + 1,
                         next_oid := next_oid st + length items\<rparr>"
    from decode_ideas_oids [OF this(1)] assms(1) show ?thesis
      unfolding s' by (simp add: wf_state_replace)
  qed
qed

lemma improvement_step_wf:
  assumes "wf_state st"
    and "improvement_step loads backend st = Proceed s' \<or> improvement_step loads backend st = Skip s'"
  shows "wf_state s' \<and> good_enough_ideas s' = good_enough_ideas st"
  using assms(2)
proof
  assume "improvement_step loads backend st = Skip s'"
  from improvement_step_cases(2) [OF this] assms(1) show ?thesis by simp
next
  assume "improvement_step loads backend st = Proceed s'"
  from improvement_step_cases(1) [OF this] show ?thesis
  proof (elim disjE conjE exE)
    assume "s' = st"
    with assms(1) show ?thesis by simp
  next
    fix response items
    assume "decode_ideas loads (next_oid st) response = Inr items"
      and s': "s' = st\<lparr>needs_improvement_ideas := items, calls := calls st + 1,
                         next_oid := next_oid st + length items\<rparr>"
    from decode_ideas_oids [OF this(1)] assms(1) show ?thesis
      unfolding s' by (simp add: wf_state_replace)
  qed
qed


lemma evaluation_step_cases:
  "evaluation_step loads backend st = Proceed s'
   \<Longrightarrow> s' = st
      \<or> (\<exists>results ideas moved kept.
            evaluate_ideas loads backend (calls st) (needs_improvement_ideas st)
              = Inr (results, ideas)
            \<and> separate results ideas = Inr (moved, kept)
            \<and> s' = st\<lparr>good_enough_ideas := good_enough_ideas st @ moved,
                        needs_improvement_ideas :=
                          filter (\<lambda>idea. rating idea = JStr ''Needs improvement'') kept,
                        calls := calls st + 1\<rparr>)"
  "evaluation_step loads backend st \<noteq> Skip s'"
  by (auto simp: evaluation_step_def split: if_splits sum.splits prod.splits)

lemma evaluation_step_prefix:
  "evaluation_step loads backend st = Proceed s'
   \<Longrightarrow> prefix (good_enough_ideas st) (good_enough_ideas s')"
  by (auto dest!: evaluation_step_cases(1))

lemma evaluation_step_wf:
  assumes "wf_state st" and "evaluation_step loads backend st = Proceed s'"
  shows "wf_state s'"
  using evaluation_step_cases(1) [OF assms(2)]
proof (elim disjE exE conjE)
  assume "s' = st"
  with assms(1) show ?thesis by simp
next
  fix results ideas moved kept
  let ?weak = "filter (\<lambda>idea. rating idea = JStr ''Needs improvement'')"
  assume eval: "evaluate_ideas loads backend (calls st) (needs_improvement_ideas st)
                  = Inr (results, ideas)"
    and sep: "separate results ideas = Inr (moved, kept)"
    and s': "s' = st\<lparr>good_enough_ideas := good_enough_ideas st @ moved,
                       needs_improvement_ideas := ?weak kept, calls := calls st + 1\<rparr>"
  from assms(1) have wf:
    "distinct (map oid (good_enough_ideas st))"
    "distinct (map oid (needs_improvement_ideas st))"
    "set (map oid (good_enough_ideas st)) \<inter> set (map oid (needs_improvement_ideas st)) = {}"
    "\<forall>idea \<in> set (good_enough_ideas st). oid idea < next_oid st"
    "\<forall>n \<in> set (map oid (needs_improvement_ideas st)). n < next_oid st"
    by (auto simp: wf_state_def list_all_iff)
  from evaluate_ideas_rated [OF eval]
  have ideas: "rated results ideas" "map oid ideas = map oid (needs_improvement_ideas st)"
    by simp_all
  with wf(2) have "distinct (map oid ideas)"
    by simp
  from separate_rated [OF ideas(1) this] sep ideas(2)
  have new: "distinct (map oid (moved @ ?weak kept))"
    "set (map oid (moved @ ?weak kept)) \<subseteq> set (map oid (needs_improvement_ideas st))"
    by auto
  from new(2) wf(3)
  have "set (map oid (good_enough_ideas st)) \<inter> set (map oid (moved @ ?weak kept)) = {}"
    by blast
  with wf(1) new(1)
  have "distinct (map oid (good_enough_ideas st @ moved @ ?weak kept))"
    by (simp only: map_append distinct_append)
  moreover from new(2) wf(5) have "\<forall>n \<in> set (map oid (moved @ ?weak kept)). n < next_oid st"
    by blast
  with wf(4) have "\<forall>idea \<in> set (good_enough_ideas st @ moved @ ?weak kept). oid idea < next_oid st"
    by auto
  ultimately show ?thesis
    unfolding s' by (simp add: wf_state_def list_all_iff)
qed


lemma iteration_after_evaluation:
  assumes "generation_step loads backend (st\<lparr>attempts := attempts st + 1\<rparr>) = Proceed s1"
    and "evaluation_step loads backend s1 = Proceed s2"
  shows "iteration loads backend st = Continue st'
           \<Longrightarrow> good_enough_ideas st' = good_enough_ideas s2"
    and "iteration loads backend st = Return ideas \<Longrightarrow> ideas = good_enough_ideas s2"
  using assms
  by (auto simp: iteration_def split: step.splits if_splits
      dest!: improvement_step_cases)

lemma iteration_prefix:
  "iteration loads backend st = Continue st'
     \<Longrightarrow> prefix (good_enough_ideas st) (good_enough_ideas st')"
  "iteration loads backend st = Return ideas \<Longrightarrow> prefix (good_enough_ideas st) ideas"
proof -
  let ?st = "st\<lparr>attempts := attempts st + 1\<rparr>"
  have gen: "good_enough_ideas s = good_enough_ideas st"
    if "generation_step loads backend ?st = Proceed s \<or> generation_step loads backend ?st = Skip s"
    for s
    using that generation_step_cases [of loads backend ?st s] by auto
  have imp: "good_enough_ideas s' = good_enough_ideas s"
    if "improvement_step loads backend s = Proceed s' \<or> improvement_step loads backend s = Skip s'"
    for s s'
    using that improvement_step_cases [of loads backend s s'] by auto
  show "prefix (good_enough_ideas st) (good_enough_ideas st')"
    if "iteration loads backend st = Continue st'"
  proof (cases "generation_step loads backend ?st")
    case (Proceed s1)
    show ?thesis
    proof (cases "evaluation_step loads backend s1")
      case eval: (Proceed s2)
      from that Proceed eval have "good_enough_ideas st' = good_enough_ideas s2"
        using imp [of s2 st'] by (auto simp: iteration_def split: step.splits if_splits)
      with evaluation_step_prefix [OF eval] gen [of s1] Proceed show ?thesis
        by simp
    next
      case (Skip s)
      then show ?thesis by (simp add: evaluation_step_cases(2))
    next
      case (Fail e)
      with that Proceed show ?thesis by (simp add: iteration_def)
    qed
  next
    case (Skip s)
    with that gen [of s] show ?thesis by (simp add: iteration_def)
  next
    case (Fail e)
    with that show ?thesis by (simp add: iteration_def)
  qed
  show "prefix (good_enough_ideas st) ideas" if "iteration loads backend st = Return ideas"
  proof -
    from that obtain s1 s2 s3 where steps:
      "generation_step loads backend ?st = Proceed s1"
      "evaluation_step loads backend s1 = Proceed s2"
      "improvement_step loads backend s2 = Proceed s3"
      "ideas = good_enough_ideas s3"
      by (auto simp: iteration_def split: step.splits if_splits)
    from steps(1) gen [of s1] evaluation_step_prefix [OF steps(2)] imp [of s2 s3] steps(3,4)
    show ?thesis by simp
  qed
qed

lemma iteration_wf:
  assumes "wf_state st"
  shows "iteration loads backend st = Continue st' \<Longrightarrow> wf_state st'"
    and "iteration loads backend st = Return ideas \<Longrightarrow> distinct (map oid ideas)"
proof -
  let ?st = "st\<lparr>attempts := attempts st + 1\<rparr>"
  from assms have start: "wf_state ?st"
    by simp
  have gen: "wf_state s" if "generation_step loads backend ?st = Proceed s
      \<or> generation_step loads backend ?st = Skip s" for s
    using generation_step_wf [OF start that] by simp
  have eval: "wf_state s'" if "wf_state s" "evaluation_step loads backend s = Proceed s'" for s s'
    using that by (rule evaluation_step_wf)
  have imp: "wf_state s'" if "wf_state s" "improvement_step loads backend s = Proceed s'
      \<or> improvement_step loads backend s = Skip s'" for s s'
    using improvement_step_wf [OF that] by simp
  show "wf_state st'" if "iteration loads backend st = Continue st'"
  proof (cases "generation_step loads backend ?st")
    case g: (Proceed s1)
    with gen have wf1: "wf_state s1" by simp
    show ?thesis
    proof (cases "evaluation_step loads backend s1")
      case e: (Proceed s2)
      with wf1 eval have wf2: "wf_state s2" by simp
      show ?thesis
      proof (cases "improvement_step loads backend s2")
        case (Proceed s3)
        with that g e have "st' = s3"
          by (simp add: iteration_def split: if_splits)
        with imp [OF wf2] Proceed show ?thesis by simp
      next
        case (Skip s)
        with that g e have "st' = s"
          by (simp add: iteration_def)
        with imp [OF wf2] Skip show ?thesis by simp
      next
        case (Fail err)
        with that g e show ?thesis by (simp add: iteration_def)
      qed
    next
      case (Skip s)
      then show ?thesis by (simp add: evaluation_step_cases(2))
    next
      case (Fail err)
      with that g show ?thesis by (simp add: iteration_def)
    qed
  next
    case (Skip s)
    with that have "st' = s" by (simp add: iteration_def)
    with gen Skip show ?thesis by simp
  next
    case (Fail err)
    with that show ?thesis by (simp add: iteration_def)
  qed
  show "distinct (map oid ideas)" if "iteration loads backend st = Return ideas"
  proof -
    from that obtain s1 s2 s3 where
      "generation_step loads backend ?st = Proceed s1"
      "evaluation_step loads backend s1 = Proceed s2"
      "improvement_step loads backend s2 = Proceed s3"
      "ideas = good_enough_ideas s3"
      by (auto simp: iteration_def split: step.splits if_splits)
    with gen [of s1] eval [of s1 s2] imp [of s2 s3] have "wf_state s3"
      by simp
    with \<open>ideas = good_enough_ideas s3\<close> show ?thesis
      by (simp add: wf_state_def)
  qed
qed

lemma generate_loop_prefix:
  "generate_loop loads backend st = Inr result \<Longrightarrow> prefix (good_enough_ideas st) result"
proof (induction loads backend st rule: generate_loop.induct)
  case (1 loads backend st)
  show ?case
  proof (cases "attempts st < max_attempts")
    case False
    with "1.prems" show ?thesis by (auto simp: generate_loop.simps)
  next
    case guard: True
    show ?thesis
    proof (cases "iteration loads backend st")
      case (Continue st')
      with "1.prems" guard have "generate_loop loads backend st' = Inr result"
        by (subst (asm) generate_loop.simps) simp
      from "1.IH" [OF guard Continue this] iteration_prefix(1) [OF Continue]
      show ?thesis
        by (rule prefix_order.trans [rotated])
    next
      case (Return ideas)
      with "1.prems" guard have "result = ideas"
        by (subst (asm) generate_loop.simps) simp
      with iteration_prefix(2) [OF Return] show ?thesis by simp
    next
      case (Raise e)
      with "1.prems" guard show ?thesis
        by (subst (asm) generate_loop.simps) simp
    qed
  qed
qed

lemma generate_loop_distinct:
  "wf_state st \<Longrightarrow> generate_loop loads backend st = Inr result \<Longrightarrow> distinct (map oid result)"
proof (induction loads backend st rule: generate_loop.induct)
  case (1 loads backend st)
  show ?case
  proof (cases "attempts st < max_attempts")
    case False
    with "1.prems" show ?thesis by (auto simp: generate_loop.simps wf_state_def)
  next
    case guard: True
    show ?thesis
    proof (cases "iteration loads backend st")
      case (Continue st')
      with "1.prems"(2) [unfolded generate_loop.simps [of loads backend st]] guard
      have "generate_loop loads backend st' = Inr result"
        by simp
      from "1.IH" [OF guard Continue iteration_wf(1) [OF "1.prems"(1) Continue] this]
      show ?thesis .
    next
      case (Return ideas)
      with "1.prems"(2) [unfolded generate_loop.simps [of loads backend st]] guard
      have "result = ideas"
        by simp
      with iteration_wf(2) [OF "1.prems"(1) Return] show ?thesis by simp
    next
      case (Raise e)
      with "1.prems"(2) [unfolded generate_loop.simps [of loads backend st]] guard
      show ?thesis
        by simp
    qed
  qed
qed

lemma loop_heads_member:
  "h \<in> set (loop_heads loads backend st)
   \<Longrightarrow> attempts h < max_attempts
       \<and> generate_loop loads backend h = generate_loop loads backend st
       \<and> (wf_state st \<longrightarrow> wf_state h)"
proof (induction loads backend st rule: loop_heads.induct)
  case (1 loads backend st)
  show ?case
  proof (cases "attempts st < max_attempts")
    case False
    with "1.prems" show ?thesis by (simp add: loop_heads.simps)
  next
    case guard: True
    show ?thesis
    proof (cases "h = st")
      case True
      with guard show ?thesis by simp
    next
      case False
      from "1.prems" [unfolded loop_heads.simps [of loads backend st]] guard False
      have rest: "h \<in> set (case iteration loads backend st of
                              Continue st' \<Rightarrow> loop_heads loads backend st'
                            | Return ideas \<Rightarrow> []
                            | Raise e \<Rightarrow> [])"
        by simp
      then obtain st' where body: "iteration loads backend st = Continue st'"
        by (cases "iteration loads backend st") simp_all
      with rest have h: "h \<in> set (loop_heads loads backend st')"
        by simp
      from guard body have "generate_loop loads backend st = generate_loop loads backend st'"
        by (subst generate_loop.simps) simp
      with "1.IH" [OF guard body h] iteration_wf(1) [OF _ body] show ?thesis
        by auto
    qed
  qed
qed

lemma improvement_step_fresh:
  assumes "wf_state s" and "improvement_step loads backend s = Proceed s'"
    and "needs_improvement_ideas s \<noteq> []"
  shows "set (map oid (needs_improvement_ideas s'))
           \<inter> set (map oid (good_enough_ideas s @ needs_improvement_ideas s)) = {}"
proof -
  from assms(2,3) obtain response items where
    items: "decode_ideas loads (next_oid s) response = Inr items"
    and s': "needs_improvement_ideas s' = items"
    by (auto simp: improvement_step_def split: sum.splits py_error.splits)
  from assms(1)
  have low: "\<forall>n \<in> set (map oid (good_enough_ideas s @ needs_improvement_ideas s)). n < next_oid s"
    by (auto simp: wf_state_def list_all_iff)
  from decode_ideas_oids [OF items]
  have high: "\<forall>n \<in> set (map oid items). next_oid s \<le> n"
    by auto
  show ?thesis
    unfolding s'
  proof (rule ccontr)
    assume "set (map oid items)
              \<inter> set (map oid (good_enough_ideas s @ needs_improvement_ideas s)) \<noteq> {}"
    then obtain n where "n \<in> set (map oid items)"
      "n \<in> set (map oid (good_enough_ideas s @ needs_improvement_ideas s))"
      by blast
    with low high have "next_oid s \<le> n" "n < next_oid s"
      by blast+
    then show False by simp
  qed
qed

lemma wf_initial_state: "wf_state initial_state"
  by (simp add: wf_state_def initial_state_def)

text \<open>
  Claim C9, as the code has it. In a run that returns, the list of good ideas only grows:
  at every iteration, the good ideas after the evaluation step extend those at the loop
  head and are a prefix of the result, on either return. No object is in the result twice.
  The improvement step leaves the good ideas as they are and puts new objects only in
  place of the ideas that needed improvement: none of them is a good idea or one of the
  replaced ones. What the new objects hold is what the reply says, and it is not compared
  with the good ideas.
\<close>

theorem accepted_items_persist:
  assumes "generate_ideas loads backend = Inr result"
  shows "distinct (map oid result)
     \<and> (\<forall>st \<in> set (loop_heads loads backend initial_state). \<forall>s1 s2 s3.
           generation_step loads backend (st\<lparr>attempts := attempts st + 1\<rparr>) = Proceed s1 \<longrightarrow>
           evaluation_step loads backend s1 = Proceed s2 \<longrightarrow>
             prefix (good_enough_ideas st) (good_enough_ideas s2)
           \<and> prefix (good_enough_ideas s2) result
           \<and> (improvement_step loads backend s2 = Proceed s3 \<longrightarrow>
                 good_enough_ideas s3 = good_enough_ideas s2
               \<and> (needs_improvement_ideas s2 \<noteq> [] \<longrightarrow>
                    set (map oid (needs_improvement_ideas s3))
                      \<inter> set (map oid (good_enough_ideas s2 @ needs_improvement_ideas s2)) = {})))"
proof (intro conjI ballI allI impI)
  from assms show "distinct (map oid result)"
    unfolding generate_ideas_def by (rule generate_loop_distinct [OF wf_initial_state])
next
  fix st s1 s2 s3 :: loop_state
  let ?st = "st\<lparr>attempts := attempts st + 1\<rparr>"
  assume head: "st \<in> set (loop_heads loads backend initial_state)"
    and gen: "generation_step loads backend ?st = Proceed s1"
    and eval: "evaluation_step loads backend s1 = Proceed s2"
  from loop_heads_member [OF head] assms wf_initial_state
  have guard: "attempts st < max_attempts"
    and run: "generate_loop loads backend st = Inr result"
    and wf: "wf_state st"
    by (simp_all add: generate_ideas_def)
  from wf have "wf_state ?st" by simp
  from generation_step_wf [OF this disjI1 [OF gen]]
  have wf1: "wf_state s1" and good1: "good_enough_ideas s1 = good_enough_ideas st"
    by simp_all
  from evaluation_step_wf [OF wf1 eval] have wf2: "wf_state s2" .
  from evaluation_step_prefix [OF eval] good1
  show "prefix (good_enough_ideas st) (good_enough_ideas s2)"
    by simp
  show "prefix (good_enough_ideas s2) result"
  proof (cases "iteration loads backend st")
    case (Continue st')
    with run [unfolded generate_loop.simps [of loads backend st]] guard
    have "generate_loop loads backend st' = Inr result"
      by simp
    from generate_loop_prefix [OF this] iteration_after_evaluation(1) [OF gen eval Continue]
    show ?thesis by simp
  next
    case (Return ideas)
    with run [unfolded generate_loop.simps [of loads backend st]] guard
    have "result = ideas"
      by simp
    with iteration_after_evaluation(2) [OF gen eval Return] show ?thesis
      by simp
  next
    case (Raise e)
    with run [unfolded generate_loop.simps [of loads backend st]] guard show ?thesis
      by simp
  qed
  {
    assume imp: "improvement_step loads backend s2 = Proceed s3"
    from improvement_step_wf [OF wf2 disjI1 [OF imp]]
    show "good_enough_ideas s3 = good_enough_ideas s2"
      by simp
    assume "needs_improvement_ideas s2 \<noteq> []"
    with wf2 imp
    show "set (map oid (needs_improvement_ideas s3))
            \<inter> set (map oid (good_enough_ideas s2 @ needs_improvement_ideas s2)) = {}"
      by (rule improvement_step_fresh)
  }
qed

text \<open>
  A is rated good, B is improved to C, C is rated good: the result is A and C, two
  objects.
\<close>

theorem accepted_items_persist_witness:
  "generate_ideas two_ideas_loads improving_backend =
     Inr [\<lparr>oid = 0, title = JStr ''A'', description = JStr '''', rating = JStr ''Good enough''\<rparr>,
          \<lparr>oid = 2, title = JStr ''C'', description = JStr '''', rating = JStr ''Good enough''\<rparr>]
   \<and> distinct (map oid
        [\<lparr>oid = 0, title = JStr ''A'', description = JStr '''', rating = JStr ''Good enough''\<rparr>,
         \<lparr>oid = 2, title = JStr ''C'', description = JStr '''', rating = JStr ''Good enough''\<rparr>])"
proof -
  have run: "generate_ideas two_ideas_loads improving_backend =
     Inr [\<lparr>oid = 0, title = JStr ''A'', description = JStr '''', rating = JStr ''Good enough''\<rparr>,
          \<lparr>oid = 2, title = JStr ''C'', description = JStr '''', rating = JStr ''Good enough''\<rparr>]"
    by code_simp
  from accepted_items_persist [OF run] run show ?thesis
    by simp
qed

text \<open>
  Against C9 as the spec states it (no duplicate through the improvement): A is rated
  good, the improvement reply for B is A again, and it is rated good: the result holds
  two items with the same title, description and rating.
\<close>

theorem improvement_echo_counterexample:
  "generate_ideas two_ideas_loads echoing_backend =
     Inr [\<lparr>oid = 0, title = JStr ''A'', description = JStr '''', rating = JStr ''Good enough''\<rparr>,
          \<lparr>oid = 2, title = JStr ''A'', description = JStr '''', rating = JStr ''Good enough''\<rparr>]"
  by code_simp

section \<open>The loop: further properties\<close>

lemma rate_loop_all_good:
  assumes "length ideas \<le> length vs"
    and "list_all (\<lambda>v. dict_get v ''rating'' (JStr ''Needs improvement'') = JStr ''Good enough'') vs"
  shows "rate_loop ideas (map JObj vs) =
           Inr (replicate (length ideas) True,
                map (\<lambda>idea. idea\<lparr>rating := JStr ''Good enough''\<rparr>) ideas)"
  using assms
proof (induction ideas arbitrary: vs)
  case Nil
  then show ?case by simp
next
  case (Cons idea ideas)
  then obtain v vs' where vs: "vs = v # vs'"
    by (cases vs) auto
  with Cons.prems Cons.IH [of vs'] show ?case
    by simp
qed

lemma separate_all_good:
  "separate (replicate (length ideas) True) ideas = Inr (ideas, ideas)"
  by (induction ideas) simp_all

text \<open>
  Convergence in one attempt. When the generation reply decodes to a non-empty array of
  dicts and the evaluation reply to an array of at least as many dicts, all of them rated
  \<^verbatim>\<open>"Good enough"\<close>, \<open>generate_ideas\<close> returns in its first iteration: all the generated
  items, in order, each rated \<^verbatim>\<open>"Good enough"\<close>.
\<close>

theorem converges_in_one_attempt:
  assumes "backend 0 = Some generation"
    and "loads (clean_json_response generation) = Inr (JArr (map JObj ds))"
    and "ds \<noteq> []"
    and "backend 1 = Some evaluation"
    and "loads (clean_json_response evaluation) = Inr (JArr (map JObj vs))"
    and "length ds \<le> length vs"
    and "list_all (\<lambda>v. dict_get v ''rating'' (JStr ''Needs improvement'') = JStr ''Good enough'') vs"
  shows "generate_ideas loads backend =
           Inr (map (\<lambda>(k, d). \<lparr>oid = k, title = dict_get d ''title'' (JStr ''''),
                                description = dict_get d ''description'' (JStr ''''),
                                rating = JStr ''Good enough''\<rparr>) (enumerate 0 ds))
     \<and> loop_heads loads backend initial_state = [initial_state]"
proof -
  let ?fresh = "map (\<lambda>(k, d). \<lparr>oid = k, title = dict_get d ''title'' (JStr ''''),
                                description = dict_get d ''description'' (JStr ''''),
                                rating = JNull\<rparr>) (enumerate 0 ds)"
  let ?good = "map (\<lambda>idea. idea\<lparr>rating := JStr ''Good enough''\<rparr>) ?fresh"
  let ?s0 = "initial_state\<lparr>attempts := attempts initial_state + 1\<rparr>"
  let ?s1 = "?s0\<lparr>needs_improvement_ideas := ?fresh, calls := 1, next_oid := length ds\<rparr>"
  let ?s2 = "?s1\<lparr>good_enough_ideas := ?good, needs_improvement_ideas := [], calls := 2\<rparr>"
  have decoded: "decode_ideas loads 0 generation = Inr ?fresh"
    using assms(2) by (simp add: decode_ideas_def parse_ideas_def parse_loop_objects)
  have gen: "generation_step loads backend ?s0 = Proceed ?s1"
    using assms(1) decoded
    by (simp add: generation_step_def initial_state_def query_def)
  have pending: "?fresh \<noteq> []"
    using assms(3) by (simp add: enumerate_eq_zip)
  have "rate_loop ?fresh (map JObj vs) = Inr (replicate (length ?fresh) True, ?good)"
    using assms(6,7) by (intro rate_loop_all_good) simp_all
  with assms(4,5)
  have rated: "evaluate_ideas loads backend 1 ?fresh = Inr (replicate (length ?fresh) True, ?good)"
    by (simp add: evaluate_ideas_def query_def)
  have sep: "separate (replicate (length ?fresh) True) ?good = Inr (?good, ?good)"
    using separate_all_good [of ?good] by simp
  have none_weak: "filter (\<lambda>idea. rating idea = JStr ''Needs improvement'') ?good = []"
    by (simp add: filter_empty_conv)
  have eval: "evaluation_step loads backend ?s1 = Proceed ?s2"
    using pending rated sep none_weak
    by (simp add: evaluation_step_def initial_state_def)
  have imp: "improvement_step loads backend ?s2 = Proceed ?s2"
    by (simp add: improvement_step_def)
  from gen eval imp have body: "iteration loads backend initial_state = Return ?good"
    by (simp add: iteration_def initial_state_def)
  have guard: "attempts initial_state < max_attempts"
    by (simp add: initial_state_def max_attempts_def)
  have good: "?good = map (\<lambda>(k, d). \<lparr>oid = k, title = dict_get d ''title'' (JStr ''''),
                                description = dict_get d ''description'' (JStr ''''),
                                rating = JStr ''Good enough''\<rparr>) (enumerate 0 ds)"
    by (simp add: comp_def case_prod_unfold)
  from guard body good show ?thesis
    unfolding generate_ideas_def
    by (subst generate_loop.simps, subst loop_heads.simps) simp
qed

text \<open>One idea, generated and rated good by a reply in a fence without a tag.\<close>

theorem converges_in_one_attempt_witness:
  \<open>generate_ideas two_ideas_loads
     (replies [''[{"title": "C"}]'', ''```\<newline>[{"rating": "Good enough"}]\<newline>```'']) =
     Inr [\<lparr>oid = 0, title = JStr ''C'', description = JStr '''', rating = JStr ''Good enough''\<rparr>]
   \<and> loop_heads two_ideas_loads
        (replies [''[{"title": "C"}]'', ''```\<newline>[{"rating": "Good enough"}]\<newline>```''])
        initial_state = [initial_state]\<close>
proof -
  let ?backend = \<open>replies [''[{"title": "C"}]'', ''```\<newline>[{"rating": "Good enough"}]\<newline>```'']\<close>
  have generation: \<open>?backend 0 = Some ''[{"title": "C"}]''\<close>
    and evaluation: \<open>?backend 1 = Some ''```\<newline>[{"rating": "Good enough"}]\<newline>```''\<close>
    by (simp_all add: replies_def)
  have ideas: \<open>two_ideas_loads (clean_json_response ''[{"title": "C"}]'') =
      Inr (JArr (map JObj [[(''title'', JStr ''C'')]]))\<close>
    by code_simp
  have verdicts: \<open>two_ideas_loads
      (clean_json_response ''```\<newline>[{"rating": "Good enough"}]\<newline>```'') =
      Inr (JArr (map JObj [[(''rating'', JStr ''Good enough'')]]))\<close>
    by code_simp
  have all_good: "list_all
      (\<lambda>v. dict_get v ''rating'' (JStr ''Needs improvement'') = JStr ''Good enough'')
      [[(''rating'', JStr ''Good enough'')]]"
    by (simp add: dict_get_def)
  from converges_in_one_attempt
    [where loads = two_ideas_loads and backend = ?backend, OF generation ideas _ evaluation
       verdicts _ all_good]
  show ?thesis
    by (simp add: dict_get_def)
qed

text \<open>
  The two lists at the loop head. At the start of every iteration of every run, no object
  is twice in the list of good ideas or twice in the list of those that need improvement,
  and none is in both.
\<close>

theorem loop_head_partition:
  assumes "st \<in> set (loop_heads loads backend initial_state)"
  shows "distinct (map oid (good_enough_ideas st))
     \<and> distinct (map oid (needs_improvement_ideas st))
     \<and> set (map oid (good_enough_ideas st)) \<inter> set (map oid (needs_improvement_ideas st)) = {}"
proof -
  from loop_heads_member [OF assms] wf_initial_state have "wf_state st"
    by simp
  then show ?thesis
    by (simp add: wf_state_def)
qed

text \<open>The second loop head of the run against the echoing backend.\<close>

theorem loop_head_partition_witness:
  "\<lparr>attempts = 1,
     good_enough_ideas =
       [\<lparr>oid = 0, title = JStr ''A'', description = JStr '''', rating = JStr ''Good enough''\<rparr>],
     needs_improvement_ideas =
       [\<lparr>oid = 2, title = JStr ''A'', description = JStr '''', rating = JNull\<rparr>],
     calls = 3, next_oid = 3\<rparr>
     \<in> set (loop_heads two_ideas_loads echoing_backend initial_state)
   \<and> set (map oid [\<lparr>oid = 0, title = JStr ''A'', description = JStr '''',
                     rating = JStr ''Good enough''\<rparr>])
       \<inter> set (map oid [\<lparr>oid = 2, title = JStr ''A'', description = JStr '''', rating = JNull\<rparr>])
       = {}"
proof -
  have head: "\<lparr>attempts = 1,
     good_enough_ideas =
       [\<lparr>oid = 0, title = JStr ''A'', description = JStr '''', rating = JStr ''Good enough''\<rparr>],
     needs_improvement_ideas =
       [\<lparr>oid = 2, title = JStr ''A'', description = JStr '''', rating = JNull\<rparr>],
     calls = 3, next_oid = 3\<rparr>
     \<in> set (loop_heads two_ideas_loads echoing_backend initial_state)"
    by code_simp
  from loop_head_partition [OF head] head show ?thesis
    by simp
qed

text \<open>
  What becomes of an idea without a verdict. Two ideas are generated and the evaluation
  reply has one verdict: the second idea stays unrated, so it is neither appended to the
  good ideas nor kept by the filter, and \<open>generate_ideas\<close> returns the first idea alone.
\<close>

theorem unrated_idea_is_lost:
  \<open>generate_ideas two_ideas_loads
     (replies [''[{"title": "A"}, {"title": "B"}]'', ''[{"rating": "Good enough"}]'']) =
   Inr [\<lparr>oid = 0, title = JStr ''A'', description = JStr '''', rating = JStr ''Good enough''\<rparr>]\<close>
  by code_simp

end
